theory Spec2Isabelle
  imports Main "HOL-Library.Word" "HOL-Library.AList"
begin

section \<open>Data model of hashtable.c\<close>

text \<open>
  The table has a fixed number of slots (\<^verbatim>\<open>#define TABLE_SIZE 100000\<close>). Integer widths
  are those of an LP64 platform: \<^verbatim>\<open>size_t\<close> has 64 bits and \<^verbatim>\<open>unsigned int\<close> has 32.
  Whether plain \<^verbatim>\<open>char\<close> is signed is left to the C implementation, so it is a parameter
  (\<open>char_signed\<close>) of every function that hashes a key.
\<close>

definition TABLE_SIZE :: nat where
  "TABLE_SIZE = 100000"

type_synonym size_t = "64 word"
type_synonym uint = "32 word"

text \<open>
  A C string is the list of its bytes before the terminating NUL. \<^verbatim>\<open>struct entry_s\<close> is a
  node holding its own copies of key and value and the pointer to the next node of the
  chain (\<open>None\<close> is \<^verbatim>\<open>NULL\<close>). \<^verbatim>\<open>struct hashtable_s\<close> holds the array of chain heads.
\<close>

datatype entry = Entry (entry_key: string) (entry_value: string) (entry_next: "entry option")

record hashtable =
  entries :: "entry option list"

section \<open>The hash function\<close>

text \<open>
  \<^verbatim>\<open>key[i]\<close> has type \<^verbatim>\<open>char\<close>; in \<^verbatim>\<open>value * 37 + key[i]\<close> it is promoted to \<^verbatim>\<open>int\<close> and
  then converted to \<^verbatim>\<open>size_t\<close>: sign-extended where \<^verbatim>\<open>char\<close> is signed, zero-extended
  where it is unsigned.
\<close>

definition char_to_size_t :: "bool \<Rightarrow> char \<Rightarrow> size_t" where
  "char_to_size_t char_signed c =
     (if char_signed then scast (of_char c :: 8 word) else ucast (of_char c :: 8 word))"

definition strlen :: "string \<Rightarrow> nat" where
  "strlen s = length s"

text \<open>The \<^verbatim>\<open>for\<close> loop of \<^verbatim>\<open>hash\<close>, from index \<open>i\<close> with accumulator \<open>val\<close>.\<close>

function hash_loop :: "bool \<Rightarrow> string \<Rightarrow> nat \<Rightarrow> nat \<Rightarrow> size_t \<Rightarrow> size_t" where
  "hash_loop char_signed key key_len i val =
     (if i < key_len
      then hash_loop char_signed key key_len (i + 1)
             (val * 37 + char_to_size_t char_signed (key ! i))
      else val)"
  by pat_completeness auto
termination
  by (relation "measure (\<lambda>(_, _, key_len, i, _). key_len - i)") auto

declare hash_loop.simps [simp del]

text \<open>
  \<^verbatim>\<open>unsigned int key_len = strlen(key)\<close> keeps the low 32 bits of the length; the
  accumulator wraps modulo \<open>2 ^ 64\<close>; the result is reduced modulo \<^verbatim>\<open>TABLE_SIZE\<close>.
\<close>

definition hash :: "bool \<Rightarrow> string \<Rightarrow> nat" where
  "hash char_signed key =
     (let key_len = (of_nat (strlen key) :: uint);
          val = hash_loop char_signed key (unat key_len) 0 0
      in unat val mod TABLE_SIZE)"

text \<open>
  The hash as the specification words it: every byte of the key, as an unsigned byte value,
  enters \<open>acc * 37 + byte\<close> with unsigned wrap-around, and the result is reduced modulo
  the capacity.
\<close>

definition spec_hash :: "string \<Rightarrow> nat" where
  "spec_hash key =
     unat (fold (\<lambda>c acc. acc * 37 + of_nat (of_char c)) key (0 :: size_t)) mod 100000"

section \<open>Allocation\<close>

text \<open>
  \<^verbatim>\<open>malloc\<close> may fail. The allocator state holds the outcomes of the calls still to come
  (\<open>True\<close>: a block is returned, \<open>False\<close>: \<^verbatim>\<open>NULL\<close>); each call consumes one. A block that
  has been given back with \<^verbatim>\<open>free\<close> no longer holds what the program stored in it: the C
  string that a later read finds there is not determined by the program, so the state also
  holds, for the reads of freed blocks still to come, the bytes each of them finds.
  A store or read through a null pointer is the fault \<open>NullDereference\<close>, after which
  nothing is returned.
\<close>

record allocator =
  malloc_ok :: "nat \<Rightarrow> bool"
  freed_bytes :: "nat \<Rightarrow> string"

definition malloc :: "allocator \<Rightarrow> bool \<times> allocator" where
  "malloc m = (malloc_ok m 0, m\<lparr>malloc_ok := \<lambda>n. malloc_ok m (Suc n)\<rparr>)"

definition read_freed :: "allocator \<Rightarrow> string \<times> allocator" where
  "read_freed m = (freed_bytes m 0, m\<lparr>freed_bytes := \<lambda>n. freed_bytes m (Suc n)\<rparr>)"

datatype fault = NullDereference

text \<open>
  \<^verbatim>\<open>ht_create_entry\<close>: the node is allocated, and \<^verbatim>\<open>entry->key\<close> and \<^verbatim>\<open>entry->value\<close> are
  assigned the results of two more allocations before \<^verbatim>\<open>entry\<close> is compared with \<^verbatim>\<open>NULL\<close>.
  When a string allocation failed, everything obtained is freed and \<^verbatim>\<open>NULL\<close> is returned.
\<close>

definition ht_create_entry ::
  "allocator \<Rightarrow> string \<Rightarrow> string \<Rightarrow> fault + (entry option \<times> allocator)" where
  "ht_create_entry m key val =
     (let (entry_ok, m1) = malloc m;
          (key_ok, m2) = malloc m1
      in if \<not> entry_ok then Inl NullDereference
         else
           (let (value_ok, m3) = malloc m2
            in if key_ok \<and> value_ok then Inr (Some (Entry key val None), m3)
               else Inr (None, m3)))"

section \<open>Operations on the table\<close>

text \<open>\<^verbatim>\<open>ht_init\<close> stores \<^verbatim>\<open>NULL\<close> into every slot, one index after the other.\<close>

definition ht_init :: "hashtable \<Rightarrow> hashtable" where
  "ht_init h = h\<lparr>entries := fold (\<lambda>i es. es[i := None]) [0..<TABLE_SIZE] (entries h)\<rparr>"

text \<open>
  The \<^verbatim>\<open>for\<close> loop of \<^verbatim>\<open>ht_get\<close>. The table is passed through the loop and returned
  with the result, so that what the call leaves in memory is part of its outcome.
\<close>

fun ht_get_loop :: "hashtable \<Rightarrow> entry option \<Rightarrow> string \<Rightarrow> string option \<times> hashtable" where
  "ht_get_loop h None key = (None, h)"
| "ht_get_loop h (Some (Entry k v nx)) key =
     (if k = key then (Some v, h) else ht_get_loop h nx key)"

definition ht_get :: "bool \<Rightarrow> hashtable \<Rightarrow> string \<Rightarrow> string option \<times> hashtable" where
  "ht_get char_signed h key =
     (let slot = hash char_signed key in ht_get_loop h (entries h ! slot) key)"

text \<open>
  The argument \<^verbatim>\<open>value\<close> of \<^verbatim>\<open>ht_set\<close> is a pointer. \<open>Held s\<close> points at a string \<open>s\<close> in a
  block that \<^verbatim>\<open>ht_set\<close> never frees: a string that the caller holds outside the table, or a
  stored key. \<open>ValueOf k\<close> is the pointer that \<^verbatim>\<open>ht_get\<close> returns for the key \<open>k\<close>, as in
  \<^verbatim>\<open>ht_set(t, key, ht_get(t, k))\<close>: it points at the stored value of the first node with key
  \<open>k\<close> in the chain of \<open>k\<close>, and is \<^verbatim>\<open>NULL\<close> when there is none. \<open>deref\<close> is the string
  the pointer points at when the call starts. (The argument \<^verbatim>\<open>key\<close> is read only before
  anything is freed, so its string is all that matters of it.)
\<close>

datatype value_ptr = Held string | ValueOf string

fun deref :: "bool \<Rightarrow> hashtable \<Rightarrow> value_ptr \<Rightarrow> string option" where
  "deref char_signed h (Held s) = Some s"
| "deref char_signed h (ValueOf k) = fst (ht_get char_signed h k)"

text \<open>
  The \<^verbatim>\<open>do ... while\<close> loop of \<^verbatim>\<open>ht_set\<close>, entered at a node of the chain. \<open>val\<close> is the
  string that \<^verbatim>\<open>value\<close> points at when the call starts, and \<open>aliased\<close> says that \<^verbatim>\<open>value\<close>
  points at the stored value of the first node with the key \<open>key\<close>. At that node the loop
  allocates \<^verbatim>\<open>tmp\<close> and then runs
  \<^verbatim>\<open>free(entry->value); entry->value = tmp; strcpy(entry->value, value);\<close>
  so that, when \<^verbatim>\<open>value\<close> points at the block just freed, \<^verbatim>\<open>strcpy\<close> copies what a read of
  the freed block finds. The loop returns the pointer that \<^verbatim>\<open>ht_set\<close> returns (the node it
  refers to, or \<open>None\<close> for \<^verbatim>\<open>NULL\<close>), the chain from this node on as the loop leaves it,
  and the allocator.
\<close>

fun ht_set_loop ::
  "allocator \<Rightarrow> entry \<Rightarrow> string \<Rightarrow> string \<Rightarrow> bool
     \<Rightarrow> fault + (entry option \<times> entry \<times> allocator)" where
  "ht_set_loop m (Entry k v nx) key val aliased =
     (if k = key
      then (let (tmp_ok, m') = malloc m
            in if tmp_ok
               then (if aliased
                     then (let (bytes, m'') = read_freed m'
                           in Inr (Some (Entry k bytes nx), Entry k bytes nx, m''))
                     else Inr (Some (Entry k val nx), Entry k val nx, m'))
               else Inr (None, Entry k v nx, m'))
      else (case nx of
              Some entry \<Rightarrow>
                (case ht_set_loop m entry key val aliased of
                   Inl f \<Rightarrow> Inl f
                 | Inr (r, entry', m') \<Rightarrow> Inr (r, Entry k v (Some entry'), m'))
            | None \<Rightarrow>
                (case ht_create_entry m key val of
                   Inl f \<Rightarrow> Inl f
                 | Inr (r, m') \<Rightarrow> Inr (r, Entry k v r, m'))))"

text \<open>
  \<^verbatim>\<open>ht_set\<close>. With \<^verbatim>\<open>value\<close> equal to \<^verbatim>\<open>NULL\<close> every path reaches \<^verbatim>\<open>strlen(value)\<close>, or
  the store through a null \<^verbatim>\<open>entry\<close> before it, so the call ends in the fault.
\<close>

definition ht_set ::
  "bool \<Rightarrow> allocator \<Rightarrow> hashtable \<Rightarrow> string \<Rightarrow> value_ptr
     \<Rightarrow> fault + (entry option \<times> hashtable \<times> allocator)" where
  "ht_set char_signed m h key value_arg =
     (case deref char_signed h value_arg of
        None \<Rightarrow> Inl NullDereference
      | Some val \<Rightarrow>
          (let slot = hash char_signed key
           in case entries h ! slot of
                None \<Rightarrow>
                  (case ht_create_entry m key val of
                     Inl f \<Rightarrow> Inl f
                   | Inr (r, m') \<Rightarrow> Inr (r, h\<lparr>entries := (entries h)[slot := r]\<rparr>, m'))
              | Some entry \<Rightarrow>
                  (case ht_set_loop m entry key val (value_arg = ValueOf key) of
                     Inl f \<Rightarrow> Inl f
                   | Inr (r, entry', m') \<Rightarrow>
                       Inr (r, h\<lparr>entries := (entries h)[slot := Some entry']\<rparr>, m'))))"

text \<open>
  \<^verbatim>\<open>print_hashtable\<close> writes one line for every non-empty slot, in ascending slot order: the
  slot index, then the \<^verbatim>\<open>key=value\<close> items of the chain from its head. The output is the
  list of these lines.
\<close>

fun print_chain :: "entry option \<Rightarrow> (string \<times> string) list" where
  "print_chain None = []"
| "print_chain (Some (Entry k v nx)) = (k, v) # print_chain nx"

fun print_slots ::
  "hashtable \<Rightarrow> nat list \<Rightarrow> (nat \<times> (string \<times> string) list) list \<times> hashtable" where
  "print_slots h [] = ([], h)"
| "print_slots h (i # is) =
     (let line = (case entries h ! i of
                    None \<Rightarrow> []
                  | Some entry \<Rightarrow> [(i, print_chain (Some entry))]);
          (out, h') = print_slots h is
      in (line @ out, h'))"

definition print_hashtable ::
  "hashtable \<Rightarrow> (nat \<times> (string \<times> string) list) list \<times> hashtable" where
  "print_hashtable h = print_slots h [0..<TABLE_SIZE]"

text \<open>The enumeration of the table: the printed items, each with the slot of its line.\<close>

definition enumerate_table :: "hashtable \<Rightarrow> (nat \<times> string \<times> string) list" where
  "enumerate_table h =
     concat (map (\<lambda>(i, kvs). map (\<lambda>(k, v). (i, k, v)) kvs) (fst (print_hashtable h)))"

section \<open>Sequences of calls\<close>

text \<open>
  A caller such as \<^verbatim>\<open>main\<close> issues \<^verbatim>\<open>ht_set\<close> calls one after the other on the same table.
  \<open>ht_sets\<close> runs a list of such calls and collects the returned pointers; a fault ends
  the run.
\<close>

fun ht_sets ::
  "bool \<Rightarrow> allocator \<Rightarrow> hashtable \<Rightarrow> (string \<times> value_ptr) list
     \<Rightarrow> fault + (entry option list \<times> hashtable \<times> allocator)" where
  "ht_sets char_signed m h [] = Inr ([], h, m)"
| "ht_sets char_signed m h ((key, val) # kvs) =
     (case ht_set char_signed m h key val of
        Inl f \<Rightarrow> Inl f
      | Inr (r, h', m') \<Rightarrow>
          (case ht_sets char_signed m' h' kvs of
             Inl f \<Rightarrow> Inl f
           | Inr (rs, h'', m'') \<Rightarrow> Inr (r # rs, h'', m'')))"

text \<open>The calls of a run that succeeded (returned an entry), in call order.\<close>

fun succeeded ::
  "(string \<times> value_ptr) list \<Rightarrow> entry option list \<Rightarrow> (string \<times> value_ptr) list" where
  "succeeded (kv # kvs) (r # rs) =
     (if r = None then succeeded kvs rs else kv # succeeded kvs rs)"
| "succeeded _ _ = []"

text \<open>
  What the calls of a run that succeeded left in the table: the key of each, with the value
  of the entry that the call returned.
\<close>

fun stored ::
  "(string \<times> value_ptr) list \<Rightarrow> entry option list \<Rightarrow> (string \<times> string) list" where
  "stored ((k, p) # kvs) (r # rs) =
     (case r of None \<Rightarrow> stored kvs rs | Some e \<Rightarrow> (k, entry_value e) # stored kvs rs)"
| "stored _ _ = []"

text \<open>
  The order in which enumeration is expected to show the keys of one slot: each key once, in
  the order of the first call with it. \<open>insertion_order\<close> pairs each of these keys with the
  value of the last call with it.
\<close>

definition first_occurrences :: "string list \<Rightarrow> string list" where
  "first_occurrences ks = rev (remdups (rev ks))"

definition insertion_order :: "(string \<times> string) list \<Rightarrow> (string \<times> string) list" where
  "insertion_order kvs =
     map (\<lambda>k. (k, the (map_of (rev kvs) k))) (first_occurrences (map fst kvs))"

text \<open>Read-only calls, and a run of them on one table.\<close>

datatype read_call = Get string | Enumerate

datatype read_result =
  Got "string option" | Enumerated "(nat \<times> (string \<times> string) list) list"

fun read :: "bool \<Rightarrow> hashtable \<Rightarrow> read_call \<Rightarrow> read_result \<times> hashtable" where
  "read char_signed h (Get key) = (let (r, h') = ht_get char_signed h key in (Got r, h'))"
| "read char_signed h Enumerate = (let (out, h') = print_hashtable h in (Enumerated out, h'))"

fun reads :: "bool \<Rightarrow> hashtable \<Rightarrow> read_call list \<Rightarrow> read_result list \<times> hashtable" where
  "reads char_signed h [] = ([], h)"
| "reads char_signed h (c # cs) =
     (let (r, h') = read char_signed h c;
          (rs, h'') = reads char_signed h' cs
      in (r # rs, h''))"

section \<open>Properties of the hash function\<close>

lemma hash_loop_fold:
  "key_len \<le> length key \<Longrightarrow> i \<le> key_len \<Longrightarrow> hash_loop sg key key_len i val
     = fold (\<lambda>c acc. acc * 37 + char_to_size_t sg c) (drop i (take key_len key)) val"
proof (induction sg key key_len i val rule: hash_loop.induct)
  case (1 sg key key_len i val)
  show ?case
  proof (cases "i < key_len")
    case True
    then have "drop i (take key_len key) = key ! i # drop (Suc i) (take key_len key)"
      using 1(2) by (simp add: Cons_nth_drop_Suc [symmetric])
    with True 1 show ?thesis
      by (subst hash_loop.simps) simp
  next
    case False
    with 1 show ?thesis by (subst hash_loop.simps) simp
  qed
qed

lemma hash_less: "hash sg key < TABLE_SIZE"
  by (simp add: hash_def TABLE_SIZE_def Let_def)

lemma unat_of_char: "unat (of_char c :: 8 word) = of_char c"
proof -
  have "(of_char c :: 8 word) = of_nat (of_char c)"
    by (simp add: of_nat_of_char)
  moreover have "(of_char c :: nat) < 256"
    by (rule nat_of_char_less_256)
  ultimately show ?thesis
    by (simp add: unat_of_nat)
qed

lemma signed_byte_int:
  assumes "0 \<le> x" "x < 256"
  shows "(x + 128) mod 256 - 128 = (if 128 \<le> x then x - 256 else (x::int))"
proof (cases "128 \<le> x")
  case True
  have "x + 128 = (x - 128) + 256" by simp
  then have "(x + 128) mod 256 = (x - 128) mod 256"
    by (simp only: mod_add_self2)
  also have "\<dots> = x - 128"
    using True assms by (intro mod_pos_pos_trivial) simp_all
  finally show ?thesis using True by simp
next
  case False
  then have "(x + 128) mod 256 = x + 128"
    using assms by (intro mod_pos_pos_trivial) simp_all
  then show ?thesis using False by simp
qed

lemma sint_char:
  "sint (w :: 8 word) = (if 128 \<le> unat w then int (unat w) - 256 else int (unat w))"
proof -
  have "sint w = (uint w + 128) mod 256 - 128"
    using int_word_sint [where 'a = 8, of "uint w"] by simp
  moreover have "0 \<le> uint w" "uint w < 256"
    using uint_lt2p [of w] by simp_all
  ultimately have "sint w = (if 128 \<le> uint w then uint w - 256 else uint w)"
    by (simp only: signed_byte_int)
  moreover have "uint w = int (unat w)"
    by simp
  moreover have "(128 \<le> int (unat w)) = (128 \<le> unat w)"
    by linarith
  ultimately show ?thesis
    by (simp only:)
qed

lemma char_to_size_t_eq:
  "char_to_size_t sg c =
     (if sg \<and> 128 \<le> (of_char c :: nat) then of_nat (of_char c) - 256 else of_nat (of_char c))"
proof (cases sg)
  case True
  have "(scast (of_char c :: 8 word) :: size_t) = word_of_int (sint (of_char c :: 8 word))"
    by (rule scast_eq)
  then show ?thesis
    using True by (simp add: char_to_size_t_def sint_char unat_of_char)
next
  case False
  have "(ucast (of_char c :: 8 word) :: size_t) = of_nat (unat (of_char c :: 8 word))"
    by simp
  then show ?thesis
    using False by (simp add: char_to_size_t_def unat_of_char del: of_nat_unat)
qed

lemma hash_fold:
  assumes "length key < 2 ^ 32"
  shows "hash sg key = unat (fold (\<lambda>c acc. acc * 37 + char_to_size_t sg c) key 0) mod TABLE_SIZE"
proof -
  have "unat (of_nat (length key) :: uint) = length key"
    using assms by (simp add: unat_of_nat)
  then show ?thesis
    by (simp add: hash_def strlen_def hash_loop_fold)
qed

lemma fold_char_to_size_t:
  "fold (\<lambda>c acc. acc * 37 + char_to_size_t sg c) key a =
   fold (\<lambda>c acc. acc * 37 +
           (if sg \<and> 128 \<le> (of_char c :: nat) then of_nat (of_char c) - 256
            else of_nat (of_char c))) key a"
  by (simp only: char_to_size_t_eq)

lemma fold_unsigned_bytes:
  "(sg \<longrightarrow> (\<forall>c\<in>set key. (of_char c :: nat) < 128)) \<Longrightarrow>
   fold (\<lambda>c acc. acc * 37 + char_to_size_t sg c) key a =
   fold (\<lambda>c acc. acc * 37 + of_nat (of_char c)) key a"
  by (induction key arbitrary: a) (auto simp: char_to_size_t_eq)

text \<open>
  Claim C4, as the code has it. For every key and either signedness of \<^verbatim>\<open>char\<close> the hash
  is a slot index below \<^verbatim>\<open>TABLE_SIZE\<close>. For a key shorter than \<open>2 ^ 32\<close> bytes it is the
  accumulation \<open>acc * 37 + c\<close> over the bytes from left to right, modulo \<open>2 ^ 64\<close>, reduced
  modulo 100000, where \<open>c\<close> is the byte value, except that a byte of 128 or more counts as
  its value minus 256 where \<^verbatim>\<open>char\<close> is signed. Hence it agrees with the accumulation of
  unsigned byte values where \<^verbatim>\<open>char\<close> is unsigned or every byte of the key is below 128.
\<close>

theorem hash_contract:
  "hash sg key < TABLE_SIZE \<and>
   (length key < 2 ^ 32 \<longrightarrow>
      hash sg key =
        unat (fold (\<lambda>c acc. acc * 37 +
                      (if sg \<and> 128 \<le> (of_char c :: nat) then of_nat (of_char c) - 256
                       else of_nat (of_char c))) key (0 :: size_t)) mod 100000) \<and>
   (length key < 2 ^ 32 \<longrightarrow> (sg \<longrightarrow> (\<forall>c\<in>set key. (of_char c :: nat) < 128)) \<longrightarrow>
      hash sg key = spec_hash key)"
proof (intro conjI impI)
  show "hash sg key < TABLE_SIZE"
    by (rule hash_less)
next
  assume "length key < 2 ^ 32"
  then show "hash sg key =
        unat (fold (\<lambda>c acc. acc * 37 +
                      (if sg \<and> 128 \<le> (of_char c :: nat) then of_nat (of_char c) - 256
                       else of_nat (of_char c))) key (0 :: size_t)) mod 100000"
    by (simp only: hash_fold fold_char_to_size_t TABLE_SIZE_def)
next
  assume "length key < 2 ^ 32" and "sg \<longrightarrow> (\<forall>c\<in>set key. (of_char c :: nat) < 128)"
  then show "hash sg key = spec_hash key"
    by (simp only: hash_fold fold_unsigned_bytes spec_hash_def TABLE_SIZE_def)
qed

theorem hash_contract_witness:
  "hash True ''madrid'' < TABLE_SIZE \<and> hash True ''madrid'' = spec_hash ''madrid''
   \<and> hash True ''madrid'' = 10281"
  using hash_contract [of True "''madrid''"] by (simp add: spec_hash_def)

text \<open>
  Where \<^verbatim>\<open>char\<close> is signed, the first non-ASCII key of \<^verbatim>\<open>main\<close> (bytes C3 B1 in UTF-8) hashes to
  slot 96807, while the accumulation of unsigned byte values gives 56743.
\<close>

theorem hash_signed_char_counterexample:
  "hash True (''catalu'' @ [CHR 0xC3, CHR 0xB1] @ ''a'') = 96807 \<and>
   spec_hash (''catalu'' @ [CHR 0xC3, CHR 0xB1] @ ''a'') = 56743 \<and>
   hash True (''catalu'' @ [CHR 0xC3, CHR 0xB1] @ ''a'')
     \<noteq> spec_hash (''catalu'' @ [CHR 0xC3, CHR 0xB1] @ ''a'')"
  by (simp add: hash_fold char_to_size_t_def spec_hash_def TABLE_SIZE_def)

section \<open>Chains and slots\<close>

lemma fold_clear_slots:
  "length (fold (\<lambda>i es. es[i := None]) [0..<n] es) = length es \<and>
   (\<forall>j<length es. fold (\<lambda>i es. es[i := None]) [0..<n] es ! j = (if j < n then None else es ! j))"
  by (induction n) (auto simp: nth_list_update less_Suc_eq)

lemma ht_init_entries:
  "length (entries h) = TABLE_SIZE \<Longrightarrow> entries (ht_init h) = replicate TABLE_SIZE None"
  by (simp add: ht_init_def list_eq_iff_nth_eq fold_clear_slots)

lemma ht_create_entry_cases:
  "ht_create_entry m key val = Inr (r, m') \<Longrightarrow> r = None \<or> r = Some (Entry key val None)"
  by (auto simp: ht_create_entry_def malloc_def Let_def split: if_splits)

lemma ht_create_entry_fault:
  "ht_create_entry m key val = Inl f \<longleftrightarrow> \<not> malloc_ok m 0"
  by (cases f) (auto simp: ht_create_entry_def malloc_def Let_def split: if_splits)

lemma ht_set_loop_chain:
  "ht_set_loop m e key val al = Inr (r, e', m') \<Longrightarrow>
     (r = None \<longrightarrow> e' = e) \<and>
     (\<forall>er. r = Some er \<longrightarrow>
        entry_key er = key \<and> (\<not> al \<longrightarrow> entry_value er = val) \<and>
        print_chain (Some e') = AList.update key (entry_value er) (print_chain (Some e)))"
proof (induction m e key val al arbitrary: r e' m' rule: ht_set_loop.induct)
  case (1 m k v nx key val al)
  show ?case
  proof (cases "k = key")
    case True
    with 1(2) show ?thesis
      by (auto simp: malloc_def read_freed_def split: if_splits)
  next
    case False
    note neq = this
    show ?thesis
    proof (cases nx)
      case None
      with neq 1(2) obtain r0 where c: "ht_create_entry m key val = Inr (r0, m')"
        and r: "r = r0" and e': "e' = Entry k v r0"
        by (auto split: sum.splits)
      from ht_create_entry_cases [OF c] show ?thesis
        using neq None r e' by auto
    next
      case (Some entry)
      with neq 1(2) obtain e0 where c: "ht_set_loop m entry key val al = Inr (r, e0, m')"
        and e': "e' = Entry k v (Some e0)"
        by (auto split: sum.splits)
      from 1(1) [OF neq Some c] show ?thesis
        using neq Some e' by auto
    qed
  qed
qed

lemma ht_get_loop_eq: "ht_get_loop h c key = (map_of (print_chain c) key, h)"
  by (induction c rule: print_chain.induct) auto

lemma ht_get_eq:
  "ht_get sg h key = (map_of (print_chain (entries h ! hash sg key)) key, h)"
  by (simp add: ht_get_def ht_get_loop_eq)

lemma ht_set_table:
  assumes len: "length (entries h) = TABLE_SIZE"
    and set: "ht_set sg m h key p = Inr (r, h', m')"
  shows "length (entries h') = TABLE_SIZE"
    and "r = None \<Longrightarrow> h' = h"
    and "i \<noteq> hash sg key \<Longrightarrow> entries h' ! i = entries h ! i"
    and "r = Some er \<Longrightarrow>
           print_chain (entries h' ! hash sg key)
             = AList.update key (entry_value er) (print_chain (entries h ! hash sg key))"
    and "r = Some er \<Longrightarrow> entry_key er = key"
    and "r = Some er \<Longrightarrow> p \<noteq> ValueOf key \<Longrightarrow> deref sg h p = Some (entry_value er)"
proof -
  let ?s = "hash sg key"
  have s: "?s < length (entries h)"
    using len by (simp add: hash_less)
  from set obtain val where val: "deref sg h p = Some val"
    by (auto simp: ht_set_def split: option.splits)
  have "length (entries h') = TABLE_SIZE \<and> (r = None \<longrightarrow> h' = h) \<and>
        (i \<noteq> ?s \<longrightarrow> entries h' ! i = entries h ! i) \<and>
        (r = Some er \<longrightarrow>
           print_chain (entries h' ! ?s)
             = AList.update key (entry_value er) (print_chain (entries h ! ?s)) \<and>
           entry_key er = key \<and> (p \<noteq> ValueOf key \<longrightarrow> entry_value er = val))"
  proof (cases "entries h ! ?s")
    case None
    with set val obtain c: "ht_create_entry m key val = Inr (r, m')"
      and h': "h' = h\<lparr>entries := (entries h)[?s := r]\<rparr>"
      by (auto simp: ht_set_def Let_def split: sum.splits)
    have "r = None \<Longrightarrow> (entries h)[?s := r] = entries h"
      using None by (metis list_update_id)
    then show ?thesis
      using ht_create_entry_cases [OF c] None h' len s by auto
  next
    case (Some entry)
    with set val obtain e0 where
      c: "ht_set_loop m entry key val (p = ValueOf key) = Inr (r, e0, m')"
      and h': "h' = h\<lparr>entries := (entries h)[?s := Some e0]\<rparr>"
      by (auto simp: ht_set_def Let_def split: sum.splits)
    have "r = None \<Longrightarrow> (entries h)[?s := Some e0] = entries h"
      using Some ht_set_loop_chain [OF c] by (metis list_update_id)
    then show ?thesis
      using ht_set_loop_chain [OF c] Some h' len s by auto
  qed
  then show "length (entries h') = TABLE_SIZE"
    and "r = None \<Longrightarrow> h' = h"
    and "i \<noteq> hash sg key \<Longrightarrow> entries h' ! i = entries h ! i"
    and "r = Some er \<Longrightarrow>
           print_chain (entries h' ! hash sg key)
             = AList.update key (entry_value er) (print_chain (entries h ! hash sg key))"
    and "r = Some er \<Longrightarrow> entry_key er = key"
    and "r = Some er \<Longrightarrow> p \<noteq> ValueOf key \<Longrightarrow> deref sg h p = Some (entry_value er)"
    using val by simp_all
qed

text \<open>
  A call whose three allocations succeed and whose \<^verbatim>\<open>value\<close> is not \<^verbatim>\<open>NULL\<close> returns an
  entry with the key.
\<close>

lemma set_progress:
  assumes "malloc_ok m 0" "malloc_ok m 1" "malloc_ok m 2" and "deref sg h p = Some val"
  shows "\<exists>er h' m'. ht_set sg m h key p = Inr (Some er, h', m') \<and> entry_key er = key"
proof -
  have create: "\<exists>m'. ht_create_entry m key val = Inr (Some (Entry key val None), m')"
    using assms(1-3) by (simp add: ht_create_entry_def malloc_def numeral_2_eq_2)
  have loop: "malloc_ok m 0 \<Longrightarrow>
      (\<exists>m'. ht_create_entry m key val = Inr (Some (Entry key val None), m')) \<Longrightarrow>
      \<exists>er e' m'. ht_set_loop m e key val al = Inr (Some er, e', m') \<and> entry_key er = key"
    for m e key val al
  proof (induction m e key val al rule: ht_set_loop.induct)
    case (1 m k v nx key val al)
    show ?case
    proof (cases "k = key")
      case True
      then show ?thesis
        using 1(2) by (auto simp: malloc_def read_freed_def)
    next
      case False
      show ?thesis
      proof (cases nx)
        case None
        then show ?thesis
          using False 1(3) by auto
      next
        case (Some entry)
        from 1(1) [OF False Some 1(2,3)] show ?thesis
          using False Some by auto
      qed
    qed
  qed
  show ?thesis
  proof (cases "entries h ! hash sg key")
    case None
    then show ?thesis
      using create assms(4) by (auto simp: ht_set_def)
  next
    case (Some entry)
    from loop [OF assms(1) create, of entry "p = ValueOf key"] show ?thesis
      using Some assms(4) by (auto simp: ht_set_def)
  qed
qed

section \<open>A run of calls as an association list\<close>

text \<open>
  Along a chain \<^verbatim>\<open>ht_set\<close> does what \<open>AList.update\<close> does on the list of pairs: it replaces
  the value at the first node with the key, or appends a node at the end.
\<close>

lemma update_absent: "k \<notin> fst ` set al \<Longrightarrow> AList.update k v al = al @ [(k, v)]"
  by (induction al) auto

lemma update_map_present:
  "distinct ks \<Longrightarrow> k \<in> set ks \<Longrightarrow>
   AList.update k v (map (\<lambda>k'. (k', f k')) ks) = map (\<lambda>k'. (k', if k' = k then v else f k')) ks"
  by (induction ks) auto

lemma insertion_order_unfold:
  "insertion_order kvs =
     map (\<lambda>k. (k, the (map_of (rev kvs) k))) (rev (remdups (rev (map fst kvs))))"
  by (simp add: insertion_order_def first_occurrences_def)

lemma insertion_order_snoc:
  "insertion_order (kvs @ [(k, v)]) = AList.update k v (insertion_order kvs)"
proof -
  let ?F = "rev (remdups (rev (map fst kvs)))"
  have F: "distinct ?F" "set ?F = fst ` set kvs"
    by simp_all
  show ?thesis
  proof (cases "k \<in> fst ` set kvs")
    case True
    then have "insertion_order (kvs @ [(k, v)])
        = map (\<lambda>k'. (k', if k' = k then v else the (map_of (rev kvs) k'))) ?F"
      by (simp add: insertion_order_unfold)
    also have "\<dots> = AList.update k v (map (\<lambda>k'. (k', the (map_of (rev kvs) k'))) ?F)"
      using F True by (simp only: update_map_present)
    finally show ?thesis
      by (simp only: insertion_order_unfold)
  next
    case False
    then have "insertion_order (kvs @ [(k, v)]) = insertion_order kvs @ [(k, v)]"
      by (auto simp: insertion_order_unfold)
    moreover have "k \<notin> fst ` set (insertion_order kvs)"
      using False by (force simp: insertion_order_unfold)
    ultimately show ?thesis
      by (simp add: update_absent)
  qed
qed

lemma fold_update_insertion_order:
  "fold (\<lambda>(k, v). AList.update k v) kvs [] = insertion_order kvs"
proof (induction kvs rule: rev_induct)
  case Nil
  show ?case by (simp add: insertion_order_unfold)
next
  case (snoc x xs)
  then show ?case
    by (cases x) (simp add: insertion_order_snoc)
qed

lemma map_of_fold_update:
  "map_of (fold (\<lambda>(k, v). AList.update k v) kvs c) k =
     (case map_of (rev kvs) k of Some v \<Rightarrow> Some v | None \<Rightarrow> map_of c k)"
proof (induction kvs arbitrary: c)
  case Nil
  show ?case by simp
next
  case (Cons x xs)
  obtain k0 v0 where x: "x = (k0, v0)" by (cases x)
  show ?case
    by (simp add: x Cons.IH update_conv' map_add_def split: option.splits)
qed

lemma filter_update:
  "filter (\<lambda>(k', v'). P k') (AList.update k v al) =
     (if P k then AList.update k v (filter (\<lambda>(k', v'). P k') al) else filter (\<lambda>(k', v'). P k') al)"
  by (induction al) auto

lemma filter_fold_update:
  "filter (\<lambda>(k', v'). P k') (fold (\<lambda>(k, v). AList.update k v) kvs c) =
     fold (\<lambda>(k, v). AList.update k v) (filter (\<lambda>(k', v'). P k') kvs) (filter (\<lambda>(k', v'). P k') c)"
proof (induction kvs arbitrary: c)
  case Nil
  show ?case by simp
next
  case (Cons x xs)
  obtain k0 v0 where x: "x = (k0, v0)" by (cases x)
  show ?case
    by (simp add: x Cons.IH filter_update)
qed

lemma stored_keys: "map fst (stored kvs rs) = map fst (succeeded kvs rs)"
  by (induction kvs rs rule: stored.induct) (auto split: option.splits)

lemma ht_sets_chains:
  assumes "length (entries h) = TABLE_SIZE"
    and "ht_sets sg m h kvs = Inr (rs, h', m')"
  shows "length (entries h') = TABLE_SIZE \<and> length rs = length kvs \<and>
         (\<forall>i. print_chain (entries h' ! i) =
            fold (\<lambda>(k, v). AList.update k v)
              (filter (\<lambda>(k, v). hash sg k = i) (stored kvs rs))
              (print_chain (entries h ! i)))"
  using assms
proof (induction kvs arbitrary: m h rs)
  case Nil
  then show ?case by auto
next
  case (Cons kv kvs)
  obtain key p where kv: "kv = (key, p)" by (cases kv)
  from Cons.prems(2) kv obtain r h1 m1 rs1 where
    s: "ht_set sg m h key p = Inr (r, h1, m1)"
    and t: "ht_sets sg m1 h1 kvs = Inr (rs1, h', m')"
    and rs: "rs = r # rs1"
    by (auto split: sum.splits)
  note tab = ht_set_table [OF Cons.prems(1) s]
  note ih = Cons.IH [OF tab(1) t]
  show ?case
  proof (cases r)
    case None
    then show ?thesis
      using ih tab(2) by (simp add: kv rs)
  next
    case (Some er)
    have step: "print_chain (entries h1 ! i) =
      (if i = hash sg key
       then AList.update key (entry_value er) (print_chain (entries h ! i))
       else print_chain (entries h ! i))" for i
      using tab(3) tab(4) [OF Some] by auto
    show ?thesis
      using ih by (auto simp: kv rs Some step)
  qed
qed

lemma print_slots_eq:
  "print_slots h is =
     (concat (map (\<lambda>i. case entries h ! i of None \<Rightarrow> []
                          | Some entry \<Rightarrow> [(i, print_chain (Some entry))]) is), h)"
  by (induction "is") (auto split: option.splits)

lemma enumerate_slots:
  "concat (map (\<lambda>(i, kvs). map (\<lambda>(k, v). (i, k, v)) kvs)
     (concat (map (\<lambda>i. case entries h ! i of None \<Rightarrow> []
                          | Some entry \<Rightarrow> [(i, print_chain (Some entry))]) is)))
   = concat (map (\<lambda>i. map (\<lambda>(k, v). (i, k, v)) (print_chain (entries h ! i))) is)"
  by (induction "is") (auto split: option.splits)

lemma enumerate_table_eq:
  "enumerate_table h =
     concat (map (\<lambda>i. map (\<lambda>(k, v). (i, k, v)) (print_chain (entries h ! i))) [0..<TABLE_SIZE])"
  by (simp only: enumerate_table_def print_hashtable_def print_slots_eq fst_conv enumerate_slots)

lemma ht_sets_from_init:
  assumes "length (entries h0) = TABLE_SIZE"
    and "ht_sets sg m (ht_init h0) kvs = Inr (rs, h, m')"
    and "i < TABLE_SIZE"
  shows "print_chain (entries h ! i) =
           filter (\<lambda>(k, v). hash sg k = i) (insertion_order (stored kvs rs))"
proof -
  have len: "length (entries (ht_init h0)) = TABLE_SIZE"
    using assms(1) by (simp add: ht_init_entries)
  have "print_chain (entries (ht_init h0) ! i) = []"
    using assms(1,3) by (simp add: ht_init_entries)
  with ht_sets_chains [OF len assms(2)]
  have "print_chain (entries h ! i) =
          fold (\<lambda>(k, v). AList.update k v)
            (filter (\<lambda>(k, v). hash sg k = i) (stored kvs rs)) []"
    by simp
  also have "\<dots> = filter (\<lambda>(k, v). hash sg k = i)
                     (fold (\<lambda>(k, v). AList.update k v) (stored kvs rs) [])"
    by (simp add: filter_fold_update [where P = "\<lambda>k. hash sg k = i"])
  finally show ?thesis
    by (simp only: fold_update_insertion_order)
qed

lemma enumerate_table_from_init:
  assumes "length (entries h0) = TABLE_SIZE"
    and "ht_sets sg m (ht_init h0) kvs = Inr (rs, h, m')"
  shows "enumerate_table h =
     concat (map (\<lambda>i. map (\<lambda>(k, v). (i, k, v))
                        (filter (\<lambda>(k, v). hash sg k = i) (insertion_order (stored kvs rs))))
              [0..<TABLE_SIZE])"
  unfolding enumerate_table_eq
  by (rule arg_cong [where f = concat], rule map_cong [OF refl])
     (simp add: ht_sets_from_init [OF assms])

lemma distinct_insertion_order: "distinct (map fst (insertion_order kvs))"
  by (simp add: insertion_order_unfold comp_def)

lemma distinct_grouped:
  "distinct (map fst al) \<Longrightarrow> distinct is \<Longrightarrow>
   distinct (map (\<lambda>(i, k, v). k)
     (concat (map (\<lambda>i. map (\<lambda>(k, v). (i, k, v)) (filter (\<lambda>(k, v). f k = i) al)) is)))"
proof (induction "is")
  case Nil
  show ?case by simp
next
  case (Cons i "is")
  have "distinct (map fst (filter (\<lambda>(k, v). f k = i) al))"
    using Cons.prems(1) by (rule distinct_map_filter)
  moreover have "distinct (map (\<lambda>(i, k, v). k)
     (concat (map (\<lambda>i. map (\<lambda>(k, v). (i, k, v)) (filter (\<lambda>(k, v). f k = i) al)) is)))"
    using Cons by simp
  moreover have "fst ` set (filter (\<lambda>(k, v). f k = i) al) \<inter>
     (\<lambda>(i, k, v). k) ` set (concat (map (\<lambda>i. map (\<lambda>(k, v). (i, k, v)) (filter (\<lambda>(k, v). f k = i) al)) is)) = {}"
    using Cons.prems(2) by auto
  ultimately show ?case
    by (simp add: comp_def case_prod_unfold)
qed

lemma sorted_grouped:
  "sorted (map fst (concat (map (\<lambda>i. map (\<lambda>(k, v). (i, k, v)) (g i)) [0..<n])))"
  by (induction n) (auto simp: sorted_append comp_def map_replicate_const)

lemma map_of_filter_key:
  "P k \<Longrightarrow> map_of (filter (\<lambda>(k', v). P k') xs) k = map_of xs k"
  by (induction xs) auto

lemma ht_get_after_sets:
  assumes "length (entries h) = TABLE_SIZE"
    and "ht_sets sg m h kvs = Inr (rs, h', m')"
  shows "fst (ht_get sg h' k) =
           (case map_of (rev (stored kvs rs)) k of
              Some v \<Rightarrow> Some v
            | None \<Rightarrow> fst (ht_get sg h k))"
proof -
  let ?P = "\<lambda>k'. hash sg k' = hash sg k"
  have "map_of (rev (filter (\<lambda>(k', v). ?P k') (stored kvs rs))) k
          = map_of (rev (stored kvs rs)) k"
    by (simp add: rev_filter map_of_filter_key [where P = "\<lambda>k'. hash sg k' = hash sg k"])
  then show ?thesis
    using ht_sets_chains [OF assms]
    by (simp add: ht_get_eq map_of_fold_update split: option.splits)
qed

lemma ht_get_init:
  "length (entries h0) = TABLE_SIZE \<Longrightarrow> fst (ht_get sg (ht_init h0) k) = None"
  by (simp add: ht_get_eq ht_init_entries hash_less)

lemma ht_get_from_init:
  assumes "length (entries h0) = TABLE_SIZE"
    and "ht_sets sg m (ht_init h0) kvs = Inr (rs, h, m')"
  shows "fst (ht_get sg h k) = map_of (rev (stored kvs rs)) k"
proof -
  have len: "length (entries (ht_init h0)) = TABLE_SIZE"
    using assms(1) by (simp add: ht_init_entries)
  show ?thesis
    using ht_get_after_sets [OF len assms(2), of k] ht_get_init [OF assms(1), of sg k]
    by (simp split: option.splits)
qed

lemma ht_set_failed:
  assumes "ht_set sg m h key p = Inr (None, h', m')"
  shows "h' = h"
proof -
  from assms obtain val where val: "deref sg h p = Some val"
    by (auto simp: ht_set_def split: option.splits)
  show ?thesis
  proof (cases "entries h ! hash sg key")
    case None
    with assms val have "h' = h\<lparr>entries := (entries h)[hash sg key := None]\<rparr>"
      by (auto simp: ht_set_def Let_def split: sum.splits)
    then show ?thesis
      using None by (metis list_update_id hashtable.surjective hashtable.update_convs(1))
  next
    case (Some entry)
    with assms val obtain e0 where
      c: "ht_set_loop m entry key val (p = ValueOf key) = Inr (None, e0, m')"
      and h': "h' = h\<lparr>entries := (entries h)[hash sg key := Some e0]\<rparr>"
      by (auto simp: ht_set_def Let_def split: sum.splits)
    from ht_set_loop_chain [OF c] have "e0 = entry" by simp
    with h' Some show ?thesis
      by (metis list_update_id hashtable.surjective hashtable.update_convs(1))
  qed
qed

lemma reads_eq: "reads sg h cs = (map (\<lambda>c. fst (read sg h c)) cs, h)"
proof (induction cs)
  case Nil
  show ?case by simp
next
  case (Cons c cs)
  have "snd (read sg h c) = h"
    by (cases c) (simp_all add: ht_get_eq print_hashtable_def print_slots_eq)
  then show ?case
    using Cons by (simp add: case_prod_unfold Let_def)
qed

lemma update_present_map:
  "distinct (map fst al) \<Longrightarrow> k \<in> fst ` set al \<Longrightarrow>
   AList.update k v al = map (\<lambda>(k', v'). (k', if k' = k then v else v')) al"
proof (induction al)
  case Nil
  then show ?case by simp
next
  case (Cons p al)
  obtain k0 v0 where p: "p = (k0, v0)" by (cases p)
  show ?case
  proof (cases "k0 = k")
    case True
    then have "k \<notin> fst ` set al"
      using Cons.prems(1) p by auto
    then have "map (\<lambda>(k', v'). (k', if k' = k then v else v')) al = al"
      by (induction al) auto
    then show ?thesis
      using True p by simp
  next
    case False
    then show ?thesis
      using Cons p by auto
  qed
qed

lemma filter_key_distinct:
  "distinct (map fst al) \<Longrightarrow>
   filter (\<lambda>(k', v). k' = k) al = (case map_of al k of None \<Rightarrow> [] | Some v \<Rightarrow> [(k, v)])"
proof (induction al)
  case Nil
  show ?case by simp
next
  case (Cons p al)
  obtain k0 v0 where p: "p = (k0, v0)" by (cases p)
  show ?case
  proof (cases "k0 = k")
    case True
    then have "k \<notin> fst ` set al"
      using Cons.prems p by auto
    then have "filter (\<lambda>(k', v). k' = k) al = []"
      by (force simp: filter_empty_conv)
    then show ?thesis
      using True p by simp
  next
    case False
    then show ?thesis
      using Cons p by auto
  qed
qed

lemma concat_single:
  "s < n \<Longrightarrow> concat (map (\<lambda>i. if i = s then xs else []) [0..<n]) = xs"
proof (induction n)
  case 0
  then show ?case by simp
next
  case (Suc n)
  show ?case
  proof (cases "s = n")
    case True
    have "concat (map (\<lambda>i. if i = n then xs else []) [0..<n]) = []"
      by (auto simp: concat_eq_Nil_conv)
    then show ?thesis using True by simp
  next
    case False
    with Suc show ?thesis by simp
  qed
qed

lemma filter_key_grouped:
  assumes "distinct (map fst al)" and "f k < n"
  shows "filter (\<lambda>(i, k', v). k' = k)
           (concat (map (\<lambda>i. map (\<lambda>(k, v). (i, k, v)) (filter (\<lambda>(k, v). f k = i) al)) [0..<n]))
         = (case map_of al k of None \<Rightarrow> [] | Some v \<Rightarrow> [(f k, k, v)])"
proof -
  have inner: "filter (\<lambda>(i, k', v). k' = k) (map (\<lambda>(k, v). (i, k, v)) (filter (\<lambda>(k, v). f k = i) al))
      = (if i = f k then map (\<lambda>(k, v). (f k, k, v)) (filter (\<lambda>(k', v). k' = k) al) else [])" for i
    by (induction al) auto
  have "filter (\<lambda>(i, k', v). k' = k)
           (concat (map (\<lambda>i. map (\<lambda>(k, v). (i, k, v)) (filter (\<lambda>(k, v). f k = i) al)) [0..<n]))
        = concat (map (\<lambda>i. if i = f k then map (\<lambda>(k, v). (f k, k, v)) (filter (\<lambda>(k', v). k' = k) al) else []) [0..<n])"
    by (simp only: filter_concat map_map comp_def inner)
  also have "\<dots> = map (\<lambda>(k, v). (f k, k, v)) (filter (\<lambda>(k', v). k' = k) al)"
    using assms(2) by (rule concat_single)
  finally show ?thesis
    by (simp add: filter_key_distinct [OF assms(1)] split: option.splits)
qed

lemma ht_set_abstract:
  assumes len: "length (entries h) = TABLE_SIZE"
    and abs: "\<And>i. i < TABLE_SIZE \<Longrightarrow> print_chain (entries h ! i) = filter (\<lambda>(k, v). hash sg k = i) al"
    and set: "ht_set sg m h k p = Inr (Some e, h', m')"
    and i: "i < TABLE_SIZE"
  shows "print_chain (entries h' ! i)
           = filter (\<lambda>(k, v). hash sg k = i) (AList.update k (entry_value e) al)"
proof -
  note tab = ht_set_table [OF len set]
  show ?thesis
  proof (cases "i = hash sg k")
    case True
    show ?thesis
      using tab(4) [OF refl] abs [OF i] unfolding True
      by (simp add: filter_update [where P = "\<lambda>k'. hash sg k' = hash sg k"])
  next
    case False
    then show ?thesis
      using tab(3) [OF False] abs [OF i]
      by (simp add: filter_update [where P = "\<lambda>k. hash sg k = i"])
  qed
qed

lemma enumerate_table_abstract:
  assumes "\<And>i. i < TABLE_SIZE \<Longrightarrow> print_chain (entries h ! i) = filter (\<lambda>(k, v). hash sg k = i) al"
  shows "enumerate_table h =
     concat (map (\<lambda>i. map (\<lambda>(k, v). (i, k, v)) (filter (\<lambda>(k, v). hash sg k = i) al)) [0..<TABLE_SIZE])"
  unfolding enumerate_table_eq
  by (rule arg_cong [where f = concat], rule map_cong [OF refl]) (simp add: assms)

lemma grouped_map_values:
  "concat (map (\<lambda>i. map (\<lambda>(k, v). (i, k, v))
       (filter (\<lambda>(k, v). f k = i) (map (\<lambda>(k', v'). (k', g k' v')) al))) is)
   = map (\<lambda>(i, k', v'). (i, k', g k' v'))
       (concat (map (\<lambda>i. map (\<lambda>(k, v). (i, k, v)) (filter (\<lambda>(k, v). f k = i) al)) is))"
proof -
  have "map (\<lambda>(k, v). (i, k, v)) (filter (\<lambda>(k, v). f k = i) (map (\<lambda>(k', v'). (k', g k' v')) al))
      = map (\<lambda>(i, k', v'). (i, k', g k' v')) (map (\<lambda>(k, v). (i, k, v)) (filter (\<lambda>(k, v). f k = i) al))" for i
    by (induction al) auto
  then show ?thesis
    by (simp add: map_concat comp_def)
qed

lemma grouped_keys:
  "concat (map (\<lambda>i. map (\<lambda>(k, v). (i, k, v))
       (filter (\<lambda>(k, v). f k = i) (map (\<lambda>k. (k, g k)) ks))) is)
   = concat (map (\<lambda>i. map (\<lambda>k. (i, k, g k)) (filter (\<lambda>k. f k = i) ks)) is)"
proof -
  have "map (\<lambda>(k, v). (i, k, v)) (filter (\<lambda>(k, v). f k = i) (map (\<lambda>k. (k, g k)) ks))
      = map (\<lambda>k. (i, k, g k)) (filter (\<lambda>k. f k = i) ks)" for i
    by (induction ks) auto
  then show ?thesis
    by simp
qed

lemma grouped_one_slot_keys:
  assumes "\<And>k. k \<in> set ks \<Longrightarrow> f k = s" and "s < n"
  shows "concat (map (\<lambda>i. map (\<lambda>k. (i, k, g k)) (filter (\<lambda>k. f k = i) ks)) [0..<n])
         = map (\<lambda>k. (s, k, g k)) ks"
proof -
  have "filter (\<lambda>k. f k = i) ks = (if i = s then ks else [])" for i
    using assms(1) by (auto simp: filter_id_conv filter_empty_conv)
  then have "map (\<lambda>k. (i, k, g k)) (filter (\<lambda>k. f k = i) ks)
          = (if i = s then map (\<lambda>k. (s, k, g k)) ks else [])" for i
    by simp
  then show ?thesis
    using assms(2) by (simp only: concat_single)
qed

lemma enumerate_one_slot:
  assumes "s < TABLE_SIZE"
  shows "enumerate_table \<lparr>entries = (replicate TABLE_SIZE None)[s := c]\<rparr>
           = map (\<lambda>(k, v). (s, k, v)) (print_chain c)"
proof -
  have "map (\<lambda>(k, v). (i, k, v))
          (print_chain (entries \<lparr>entries = (replicate TABLE_SIZE None)[s := c]\<rparr> ! i))
        = (if i = s then map (\<lambda>(k, v). (s, k, v)) (print_chain c) else [])"
    if "i \<in> set [0..<TABLE_SIZE]" for i
    using that assms by (simp add: nth_list_update)
  then have "map (\<lambda>i. map (\<lambda>(k, v). (i, k, v))
          (print_chain (entries \<lparr>entries = (replicate TABLE_SIZE None)[s := c]\<rparr> ! i)))
          [0..<TABLE_SIZE]
        = map (\<lambda>i. if i = s then map (\<lambda>(k, v). (s, k, v)) (print_chain c) else [])
          [0..<TABLE_SIZE]"
    by (rule map_cong [OF refl])
  then show ?thesis
    using assms by (simp only: enumerate_table_eq concat_single)
qed

section \<open>Sample calls\<close>

text \<open>
  Concrete calls on a table of 100000 slots, where \<^verbatim>\<open>char\<close> is signed. The keys \<^verbatim>\<open>"aZ"\<close>
  and \<^verbatim>\<open>"b5"\<close> collide in slot 3679. A read of a freed block finds the string \<^verbatim>\<open>"#"\<close>.
\<close>

lemma hash_samples:
  "hash True ''aZ'' = 3679" "hash True ''b5'' = 3679" "hash True ''nowhere'' = 19876"
  by (simp_all add: hash_fold char_to_size_t_def TABLE_SIZE_def)

lemma init_sample:
  "ht_init \<lparr>entries = replicate TABLE_SIZE (Some (Entry ''?'' ''?'' None))\<rparr>
     = \<lparr>entries = replicate TABLE_SIZE None\<rparr>"
proof -
  have "entries (ht_init \<lparr>entries = replicate TABLE_SIZE (Some (Entry ''?'' ''?'' None))\<rparr>)
          = replicate TABLE_SIZE None"
    by (rule ht_init_entries) simp
  then show ?thesis
    by (simp add: ht_init_def)
qed

lemma sample_length:
  "length (entries \<lparr>entries = replicate TABLE_SIZE (Some (Entry ''?'' ''?'' None))\<rparr>) = TABLE_SIZE"
  "length (entries (ht_init \<lparr>entries = replicate TABLE_SIZE (Some (Entry ''?'' ''?'' None))\<rparr>))
     = TABLE_SIZE"
  by (simp_all add: init_sample)

lemma sample_run:
  "\<exists>m'. ht_sets True \<lparr>malloc_ok = \<lambda>n. n \<noteq> 7, freed_bytes = \<lambda>n. ''#''\<rparr>
          (ht_init \<lparr>entries = replicate TABLE_SIZE (Some (Entry ''?'' ''?'' None))\<rparr>)
          [(''aZ'', Held ''1''), (''b5'', Held ''2''), (''aZ'', Held ''3''), (''aZ'', Held ''4'')]
     = Inr ([Some (Entry ''aZ'' ''1'' None), Some (Entry ''b5'' ''2'' None),
             Some (Entry ''aZ'' ''3'' (Some (Entry ''b5'' ''2'' None))), None],
            \<lparr>entries = (replicate TABLE_SIZE None)[3679 := Some (Entry ''aZ'' ''3'' (Some (Entry ''b5'' ''2'' None)))]\<rparr>,
            m')"
  unfolding init_sample
  by (simp add: ht_set_def ht_get_eq hash_samples ht_create_entry_def malloc_def read_freed_def TABLE_SIZE_def)

lemma sample_aliased_run:
  "\<exists>m'. ht_sets True \<lparr>malloc_ok = \<lambda>n. True, freed_bytes = \<lambda>n. ''#''\<rparr>
          (ht_init \<lparr>entries = replicate TABLE_SIZE (Some (Entry ''?'' ''?'' None))\<rparr>)
          [(''aZ'', Held ''1''), (''b5'', Held ''2''), (''aZ'', ValueOf ''aZ'')]
     = Inr ([Some (Entry ''aZ'' ''1'' None), Some (Entry ''b5'' ''2'' None),
             Some (Entry ''aZ'' ''#'' (Some (Entry ''b5'' ''2'' None)))],
            \<lparr>entries = (replicate TABLE_SIZE None)[3679 := Some (Entry ''aZ'' ''#'' (Some (Entry ''b5'' ''2'' None)))]\<rparr>,
            m')"
  unfolding init_sample
  by (simp add: ht_set_def ht_get_eq hash_samples ht_create_entry_def malloc_def read_freed_def TABLE_SIZE_def)

lemma sample_sets:
  "ht_sets True \<lparr>malloc_ok = \<lambda>n. True, freed_bytes = \<lambda>n. ''#''\<rparr>
     (ht_init \<lparr>entries = replicate TABLE_SIZE (Some (Entry ''?'' ''?'' None))\<rparr>)
     [(''b5'', Held ''2'')]
   = Inr ([Some (Entry ''b5'' ''2'' None)],
          \<lparr>entries = (replicate TABLE_SIZE None)[3679 := Some (Entry ''b5'' ''2'' None)]\<rparr>,
          \<lparr>malloc_ok = \<lambda>n. True, freed_bytes = \<lambda>n. ''#''\<rparr>)"
  "ht_set True \<lparr>malloc_ok = \<lambda>n. True, freed_bytes = \<lambda>n. ''#''\<rparr>
     \<lparr>entries = (replicate TABLE_SIZE None)[3679 := Some (Entry ''b5'' ''2'' None)]\<rparr>
     ''aZ'' (Held ''1'')
   = Inr (Some (Entry ''aZ'' ''1'' None),
          \<lparr>entries = (replicate TABLE_SIZE None)[3679 := Some (Entry ''b5'' ''2'' (Some (Entry ''aZ'' ''1'' None)))]\<rparr>,
          \<lparr>malloc_ok = \<lambda>n. True, freed_bytes = \<lambda>n. ''#''\<rparr>)"
  "ht_set True \<lparr>malloc_ok = \<lambda>n. True, freed_bytes = \<lambda>n. ''#''\<rparr>
     \<lparr>entries = (replicate TABLE_SIZE None)[3679 := Some (Entry ''b5'' ''2'' (Some (Entry ''aZ'' ''1'' None)))]\<rparr>
     ''aZ'' (Held ''3'')
   = Inr (Some (Entry ''aZ'' ''3'' None),
          \<lparr>entries = (replicate TABLE_SIZE None)[3679 := Some (Entry ''b5'' ''2'' (Some (Entry ''aZ'' ''3'' None)))]\<rparr>,
          \<lparr>malloc_ok = \<lambda>n. True, freed_bytes = \<lambda>n. ''#''\<rparr>)"
  unfolding init_sample
  by (simp_all add: ht_set_def ht_get_eq hash_samples ht_create_entry_def malloc_def read_freed_def TABLE_SIZE_def)

lemma sample_failures:
  "\<exists>m'. ht_set True \<lparr>malloc_ok = \<lambda>n. n \<noteq> 1, freed_bytes = \<lambda>n. ''#''\<rparr> \<lparr>entries = replicate TABLE_SIZE None\<rparr> ''aZ'' (Held ''1'')
     = Inr (None, \<lparr>entries = replicate TABLE_SIZE None\<rparr>, m')"
  "\<exists>m'. ht_set True \<lparr>malloc_ok = \<lambda>n. False, freed_bytes = \<lambda>n. ''#''\<rparr>
          \<lparr>entries = (replicate TABLE_SIZE None)[3679 := Some (Entry ''aZ'' ''1'' None)]\<rparr>
          ''aZ'' (Held ''9'')
     = Inr (None,
            \<lparr>entries = (replicate TABLE_SIZE None)[3679 := Some (Entry ''aZ'' ''1'' None)]\<rparr>, m')"
  "\<exists>m'. ht_set True \<lparr>malloc_ok = \<lambda>n. n \<noteq> 2, freed_bytes = \<lambda>n. ''#''\<rparr>
          \<lparr>entries = (replicate TABLE_SIZE None)[3679 := Some (Entry ''aZ'' ''1'' None)]\<rparr>
          ''b5'' (Held ''2'')
     = Inr (None,
            \<lparr>entries = (replicate TABLE_SIZE None)[3679 := Some (Entry ''aZ'' ''1'' None)]\<rparr>, m')"
  by (simp_all add: ht_set_def ht_get_eq hash_samples ht_create_entry_def malloc_def read_freed_def TABLE_SIZE_def
      list_update_same_conv)

section \<open>The claims about the table\<close>

text \<open>
  Where \<^verbatim>\<open>value\<close> does not point at the stored value that the call replaces, a successful
  \<^verbatim>\<open>ht_set\<close> leaves the string of \<^verbatim>\<open>value\<close> under the key, and \<^verbatim>\<open>ht_get\<close> finds what the last
  successful call on the key left there.
\<close>

lemma set_then_get:
  assumes "length (entries h) = TABLE_SIZE"
    and "ht_set sg m h k p = Inr (Some e, h', m')"
    and "p \<noteq> ValueOf k"
  shows "fst (ht_get sg h' k) = deref sg h p"
proof -
  note tab = ht_set_table [OF assms(1,2)]
  show ?thesis
    using tab(4) [OF refl] tab(6) [OF refl assms(3)]
    by (simp add: ht_get_eq update_conv')
qed

lemma lookup_after_sets:
  assumes "length (entries h) = TABLE_SIZE"
    and "ht_sets sg m h kvs = Inr (rs, h', m')"
    and "map_of (rev (stored kvs rs)) k = Some v"
  shows "fst (ht_get sg h' k) = Some v"
  using ht_get_after_sets [OF assms(1,2), of k] assms(3) by simp

text \<open>
  Claim C1 does not hold of the code when \<^verbatim>\<open>value\<close> points at the stored value of the key,
  as in \<^verbatim>\<open>ht_set(t, "aZ", ht_get(t, "aZ"))\<close> after \<^verbatim>\<open>ht_set(t, "aZ", "1")\<close>. The value passed
  is \<^verbatim>\<open>"1"\<close> and the call returns the entry, but the entry holds what the read of the
  freed block found, and that is what \<^verbatim>\<open>ht_get\<close> returns afterwards.
\<close>

theorem aliased_set_then_get:
  "deref True \<lparr>entries = (replicate TABLE_SIZE None)[3679 := Some (Entry ''aZ'' ''1'' None)]\<rparr> (ValueOf ''aZ'') = Some ''1''
   \<and> (case ht_sets True \<lparr>malloc_ok = \<lambda>n. True, freed_bytes = \<lambda>n. ''#''\<rparr>
             (ht_init \<lparr>entries = replicate TABLE_SIZE (Some (Entry ''?'' ''?'' None))\<rparr>)
             [(''aZ'', Held ''1''), (''aZ'', ValueOf ''aZ'')] of
        Inl f \<Rightarrow> False
      | Inr (rs, h', m') \<Rightarrow>
          rs = [Some (Entry ''aZ'' ''1'' None), Some (Entry ''aZ'' ''#'' None)]
          \<and> fst (ht_get True h' ''aZ'') = Some ''#'')"
  unfolding init_sample
  by (simp add: ht_set_def ht_get_eq hash_samples ht_create_entry_def malloc_def read_freed_def TABLE_SIZE_def)

text \<open>
  Claim C2. When \<^verbatim>\<open>ht_set\<close> returns \<^verbatim>\<open>NULL\<close>, the table is the one before the call, and so are
  the results of \<^verbatim>\<open>ht_get\<close> and of the enumeration. The sample calls show the three paths
  that return \<^verbatim>\<open>NULL\<close>: creation in an empty slot with a failed key allocation, update with
  a failed value allocation, and creation at the tail with a failed value allocation.
\<close>

theorem failed_set_changes_nothing:
  assumes "ht_set sg m h key val = Inr (None, h', m')"
  shows "h' = h \<and> ht_get sg h' k = ht_get sg h k \<and> print_hashtable h' = print_hashtable h
         \<and> enumerate_table h' = enumerate_table h"
  using ht_set_failed [OF assms] by simp

theorem failed_set_changes_nothing_witness:
  "(case ht_set True \<lparr>malloc_ok = \<lambda>n. n \<noteq> 1, freed_bytes = \<lambda>n. ''#''\<rparr> \<lparr>entries = replicate TABLE_SIZE None\<rparr> ''aZ'' (Held ''1'') of
      Inr (None, h', m') \<Rightarrow>
        h' = \<lparr>entries = replicate TABLE_SIZE None\<rparr>
        \<and> ht_get True h' ''aZ'' = ht_get True \<lparr>entries = replicate TABLE_SIZE None\<rparr> ''aZ''
    | _ \<Rightarrow> False)
   \<and> (case ht_set True \<lparr>malloc_ok = \<lambda>n. False, freed_bytes = \<lambda>n. ''#''\<rparr>
            \<lparr>entries = (replicate TABLE_SIZE None)[3679 := Some (Entry ''aZ'' ''1'' None)]\<rparr>
            ''aZ'' (Held ''9'') of
        Inr (None, h', m') \<Rightarrow>
          h' = \<lparr>entries = (replicate TABLE_SIZE None)[3679 := Some (Entry ''aZ'' ''1'' None)]\<rparr>
          \<and> fst (ht_get True h' ''aZ'') = Some ''1''
      | _ \<Rightarrow> False)
   \<and> (case ht_set True \<lparr>malloc_ok = \<lambda>n. n \<noteq> 2, freed_bytes = \<lambda>n. ''#''\<rparr>
            \<lparr>entries = (replicate TABLE_SIZE None)[3679 := Some (Entry ''aZ'' ''1'' None)]\<rparr>
            ''b5'' (Held ''2'') of
        Inr (None, h', m') \<Rightarrow>
          h' = \<lparr>entries = (replicate TABLE_SIZE None)[3679 := Some (Entry ''aZ'' ''1'' None)]\<rparr>
          \<and> fst (ht_get True h' ''b5'') = None
      | _ \<Rightarrow> False)"
proof -
  let ?E = "\<lparr>entries = replicate TABLE_SIZE None\<rparr>"
  let ?T = "\<lparr>entries = (replicate TABLE_SIZE None)[3679 := Some (Entry ''aZ'' ''1'' None)]\<rparr>"
  from sample_failures(1) obtain m1 where
    s1: "ht_set True \<lparr>malloc_ok = \<lambda>n. n \<noteq> 1, freed_bytes = \<lambda>n. ''#''\<rparr> ?E ''aZ'' (Held ''1'') = Inr (None, ?E, m1)" ..
  from sample_failures(2) obtain m2 where
    s2: "ht_set True \<lparr>malloc_ok = \<lambda>n. False, freed_bytes = \<lambda>n. ''#''\<rparr> ?T ''aZ'' (Held ''9'') = Inr (None, ?T, m2)" ..
  from sample_failures(3) obtain m3 where
    s3: "ht_set True \<lparr>malloc_ok = \<lambda>n. n \<noteq> 2, freed_bytes = \<lambda>n. ''#''\<rparr> ?T ''b5'' (Held ''2'') = Inr (None, ?T, m3)" ..
  have g: "fst (ht_get True ?T ''aZ'') = Some ''1''" "fst (ht_get True ?T ''b5'') = None"
    by (simp_all add: ht_get_eq hash_samples TABLE_SIZE_def)
  from failed_set_changes_nothing [OF s1, of "''aZ''"]
    failed_set_changes_nothing [OF s2, of "''aZ''"]
    failed_set_changes_nothing [OF s3, of "''b5''"]
  show ?thesis
    unfolding s1 s2 s3 by (simp add: g)
qed

text \<open>
  On a table reached from \<^verbatim>\<open>ht_init\<close> by \<^verbatim>\<open>ht_set\<close> calls, two successful calls on the same key
  \<open>k\<close>, the second with a \<^verbatim>\<open>value\<close> that holds \<open>v2\<close> and does not point at the stored value of
  \<open>k\<close>, leave exactly one enumerated item with key \<open>k\<close>, in slot \<open>hash k\<close> and with value \<open>v2\<close>.
  The second call changes nothing but the value of that item.
\<close>

lemma update_in_place_unaliased:
  assumes "length (entries h0) = TABLE_SIZE"
    and "ht_sets sg m0 (ht_init h0) kvs = Inr (rs, h, m)"
    and "ht_set sg m h k p1 = Inr (Some e1, h1, m1)"
    and "ht_set sg m1 h1 k p2 = Inr (Some e2, h2, m2)"
    and "p2 \<noteq> ValueOf k" and "deref sg h1 p2 = Some v2"
  shows "filter (\<lambda>(i, k', v). k' = k) (enumerate_table h2) = [(hash sg k, k, v2)]
         \<and> enumerate_table h2
             = map (\<lambda>(i, k', v). (i, k', if k' = k then v2 else v)) (enumerate_table h1)
         \<and> entry_key e2 = k \<and> entry_value e2 = v2"
proof -
  let ?A = "insertion_order (stored kvs rs)"
  let ?A1 = "AList.update k (entry_value e1) ?A"
  let ?A2 = "AList.update k v2 ?A1"
  have len0: "length (entries (ht_init h0)) = TABLE_SIZE"
    using assms(1) by (simp add: ht_init_entries)
  have len: "length (entries h) = TABLE_SIZE"
    using ht_sets_chains [OF len0 assms(2)] by simp
  have len1: "length (entries h1) = TABLE_SIZE"
    by (rule ht_set_table(1) [OF len assms(3)])
  have v2: "entry_value e2 = v2"
    using ht_set_table(6) [OF len1 assms(4) refl assms(5)] assms(6) by simp
  have a: "print_chain (entries h ! i) = filter (\<lambda>(k, v). hash sg k = i) ?A"
    if "i < TABLE_SIZE" for i
    using that by (rule ht_sets_from_init [OF assms(1,2)])
  have a1: "print_chain (entries h1 ! i) = filter (\<lambda>(k, v). hash sg k = i) ?A1"
    if "i < TABLE_SIZE" for i
    using len a assms(3) that by (rule ht_set_abstract)
  have a2: "print_chain (entries h2 ! i) = filter (\<lambda>(k, v). hash sg k = i) ?A2"
    if "i < TABLE_SIZE" for i
    using ht_set_abstract [OF len1 a1 assms(4) that] by (simp only: v2)
  have d1: "distinct (map fst ?A1)"
    by (simp add: distinct_update distinct_insertion_order)
  have d2: "distinct (map fst ?A2)"
    using d1 by (rule distinct_update)
  have k1: "k \<in> fst ` set ?A1"
    by (simp add: dom_update)
  have A2: "?A2 = map (\<lambda>(k', v'). (k', if k' = k then v2 else v')) ?A1"
    using d1 k1 by (rule update_present_map)
  have e1: "enumerate_table h1 =
     concat (map (\<lambda>i. map (\<lambda>(k, v). (i, k, v)) (filter (\<lambda>(k, v). hash sg k = i) ?A1)) [0..<TABLE_SIZE])"
    using a1 by (rule enumerate_table_abstract)
  have e2: "enumerate_table h2 =
     concat (map (\<lambda>i. map (\<lambda>(k, v). (i, k, v)) (filter (\<lambda>(k, v). hash sg k = i) ?A2)) [0..<TABLE_SIZE])"
    using a2 by (rule enumerate_table_abstract)
  have "map_of ?A2 k = Some v2"
    by (simp add: update_conv')
  then have one: "filter (\<lambda>(i, k', v). k' = k) (enumerate_table h2) = [(hash sg k, k, v2)]"
    using filter_key_grouped [where f = "hash sg" and k = k and n = TABLE_SIZE, OF d2 hash_less]
    by (simp add: e2)
  have place: "enumerate_table h2
             = map (\<lambda>(i, k', v). (i, k', if k' = k then v2 else v)) (enumerate_table h1)"
    by (simp only: e1 e2 A2 grouped_map_values [where g = "\<lambda>k' v'. if k' = k then v2 else v'"])
  have "entry_key e2 = k"
    by (rule ht_set_table(5) [OF len1 assms(4) refl])
  with one place v2 show ?thesis by simp
qed

text \<open>
  Claim C3 does not hold of the code when the second \<^verbatim>\<open>value\<close> points at the stored value of
  the key: after \<^verbatim>\<open>ht_set(t, "aZ", "1")\<close>, the call \<^verbatim>\<open>ht_set(t, "aZ", ht_get(t, "aZ"))\<close> is
  passed the value \<^verbatim>\<open>"1"\<close> and returns the entry of the key, but the value of that entry, and
  of the one enumerated item with the key, is what the read of the freed block found.
\<close>

theorem aliased_update_in_place:
  "(case ht_set True \<lparr>malloc_ok = \<lambda>n. True, freed_bytes = \<lambda>n. ''#''\<rparr>
          \<lparr>entries = (replicate TABLE_SIZE None)[3679 := Some (Entry ''b5'' ''2'' None)]\<rparr>
          ''aZ'' (Held ''1'') of
      Inr (Some e1, h1, m1) \<Rightarrow>
        (case ht_set True m1 h1 ''aZ'' (ValueOf ''aZ'') of
           Inr (Some e2, h2, m2) \<Rightarrow>
             deref True h1 (ValueOf ''aZ'') = Some ''1''
             \<and> e2 = Entry ''aZ'' ''#'' None
             \<and> enumerate_table h2 = [(3679, ''b5'', ''2''), (3679, ''aZ'', ''#'')]
         | _ \<Rightarrow> False)
    | _ \<Rightarrow> False)"
proof -
  have "ht_set True \<lparr>malloc_ok = \<lambda>n. True, freed_bytes = \<lambda>n. ''#''\<rparr>
          \<lparr>entries = (replicate TABLE_SIZE None)[3679 := Some (Entry ''b5'' ''2'' (Some (Entry ''aZ'' ''1'' None)))]\<rparr>
          ''aZ'' (ValueOf ''aZ'')
        = Inr (Some (Entry ''aZ'' ''#'' None),
               \<lparr>entries = (replicate TABLE_SIZE None)[3679 := Some (Entry ''b5'' ''2'' (Some (Entry ''aZ'' ''#'' None)))]\<rparr>,
               \<lparr>malloc_ok = \<lambda>n. True, freed_bytes = \<lambda>n. ''#''\<rparr>)"
    by (simp add: ht_set_def ht_get_eq hash_samples ht_create_entry_def malloc_def read_freed_def TABLE_SIZE_def)
  moreover have "deref True \<lparr>entries = (replicate TABLE_SIZE None)[3679 := Some (Entry ''b5'' ''2'' (Some (Entry ''aZ'' ''1'' None)))]\<rparr> (ValueOf ''aZ'') = Some ''1''"
    by (simp add: ht_get_eq hash_samples TABLE_SIZE_def)
  moreover have "enumerate_table \<lparr>entries = (replicate TABLE_SIZE None)[3679 := Some (Entry ''b5'' ''2'' (Some (Entry ''aZ'' ''#'' None)))]\<rparr>
        = [(3679, ''b5'', ''2''), (3679, ''aZ'', ''#'')]"
    by (subst enumerate_one_slot) (simp_all add: TABLE_SIZE_def)
  ultimately show ?thesis
    by (simp add: sample_sets(2))
qed

text \<open>
  Claim C5. After any sequence of \<^verbatim>\<open>ht_set\<close> calls on an initialised table, whether they
  succeeded or returned \<^verbatim>\<open>NULL\<close>, no two enumerated items have the same key.
\<close>

theorem keys_unique:
  assumes "length (entries h0) = TABLE_SIZE"
    and "ht_sets sg m (ht_init h0) kvs = Inr (rs, h, m')"
  shows "distinct (map (\<lambda>(i, k, v). k) (enumerate_table h))"
  by (simp only: enumerate_table_from_init [OF assms])
     (rule distinct_grouped, rule distinct_insertion_order, rule distinct_upt)

theorem keys_unique_witness:
  "distinct (map (\<lambda>(i, k, v). k) (enumerate_table
     \<lparr>entries = (replicate TABLE_SIZE None)[3679 := Some (Entry ''aZ'' ''3'' (Some (Entry ''b5'' ''2'' None)))]\<rparr>))"
proof -
  from sample_run obtain m' where run: "ht_sets True \<lparr>malloc_ok = \<lambda>n. n \<noteq> 7, freed_bytes = \<lambda>n. ''#''\<rparr>
          (ht_init \<lparr>entries = replicate TABLE_SIZE (Some (Entry ''?'' ''?'' None))\<rparr>)
          [(''aZ'', Held ''1''), (''b5'', Held ''2''), (''aZ'', Held ''3''), (''aZ'', Held ''4'')]
     = Inr ([Some (Entry ''aZ'' ''1'' None), Some (Entry ''b5'' ''2'' None),
             Some (Entry ''aZ'' ''3'' (Some (Entry ''b5'' ''2'' None))), None],
            \<lparr>entries = (replicate TABLE_SIZE None)[3679 := Some (Entry ''aZ'' ''3'' (Some (Entry ''b5'' ''2'' None)))]\<rparr>,
            m')" ..
  show ?thesis
    by (rule keys_unique [OF sample_length(1) run])
qed

text \<open>
  Claim C6. After any sequence of \<^verbatim>\<open>ht_set\<close> calls on an initialised table the enumeration
  goes through the slots in ascending order and shows, for each slot, the keys that hash to
  it and that a successful call stored, each once, in the order of the first successful call
  with the key (a later key of a slot is at the tail of its chain). The value shown with a
  key is the value that \<^verbatim>\<open>ht_get\<close> returns for it. The slot indices of the enumeration are
  ascending.
\<close>

theorem enumeration_order:
  assumes "length (entries h0) = TABLE_SIZE"
    and "ht_sets sg m (ht_init h0) kvs = Inr (rs, h, m')"
  shows "map (\<lambda>(i, k, v). (i, k, Some v)) (enumerate_table h) =
           concat (map (\<lambda>i. map (\<lambda>k. (i, k, fst (ht_get sg h k)))
                              (filter (\<lambda>k. hash sg k = i)
                                 (first_occurrences (map fst (succeeded kvs rs)))))
                    [0..<TABLE_SIZE])
         \<and> sorted (map fst (enumerate_table h))"
proof
  let ?S = "stored kvs rs"
  let ?K = "first_occurrences (map fst (succeeded kvs rs))"
  have "Some (the (map_of (rev ?S) k)) = fst (ht_get sg h k)" if "k \<in> set ?K" for k
  proof -
    from that have "k \<in> fst ` set (rev ?S)"
      by (simp add: first_occurrences_def stored_keys [symmetric])
    then have "map_of (rev ?S) k \<noteq> None"
      by (simp only: map_of_eq_None_iff not_not)
    then show ?thesis
      by (auto simp: ht_get_from_init [OF assms])
  qed
  then have "map (\<lambda>k. (k, Some (the (map_of (rev ?S) k)))) ?K
               = map (\<lambda>k. (k, fst (ht_get sg h k))) ?K"
    by simp
  then have io: "map (\<lambda>(k, v). (k, Some v)) (insertion_order ?S)
               = map (\<lambda>k. (k, fst (ht_get sg h k))) ?K"
    by (simp add: insertion_order_def stored_keys comp_def)
  have "map (\<lambda>(i, k, v). (i, k, Some v)) (enumerate_table h)
          = concat (map (\<lambda>i. map (\<lambda>(k, v). (i, k, v))
               (filter (\<lambda>(k, v). hash sg k = i)
                  (map (\<lambda>(k, v). (k, Some v)) (insertion_order ?S)))) [0..<TABLE_SIZE])"
    by (simp only: enumerate_table_from_init [OF assms]
          grouped_map_values [where g = "\<lambda>k v. Some v"])
  then show "map (\<lambda>(i, k, v). (i, k, Some v)) (enumerate_table h) =
           concat (map (\<lambda>i. map (\<lambda>k. (i, k, fst (ht_get sg h k)))
                              (filter (\<lambda>k. hash sg k = i) ?K))
                    [0..<TABLE_SIZE])"
    by (simp only: io grouped_keys)
  show "sorted (map fst (enumerate_table h))"
    by (simp only: enumerate_table_eq sorted_grouped)
qed

theorem enumeration_order_witness:
  "map (\<lambda>(i, k, v). (i, k, Some v)) (enumerate_table
     \<lparr>entries = (replicate TABLE_SIZE None)[3679 := Some (Entry ''aZ'' ''#'' (Some (Entry ''b5'' ''2'' None)))]\<rparr>)
   = [(3679, ''aZ'', Some ''#''), (3679, ''b5'', Some ''2'')]
   \<and> sorted (map fst (enumerate_table
        \<lparr>entries = (replicate TABLE_SIZE None)[3679 := Some (Entry ''aZ'' ''#'' (Some (Entry ''b5'' ''2'' None)))]\<rparr>))
   \<and> enumerate_table
        \<lparr>entries = (replicate TABLE_SIZE None)[3679 := Some (Entry ''aZ'' ''#'' (Some (Entry ''b5'' ''2'' None)))]\<rparr>
      = [(3679, ''aZ'', ''#''), (3679, ''b5'', ''2'')]"
proof -
  let ?T = "\<lparr>entries = (replicate TABLE_SIZE None)[3679 := Some (Entry ''aZ'' ''#'' (Some (Entry ''b5'' ''2'' None)))]\<rparr>"
  from sample_aliased_run obtain m' where run: "ht_sets True \<lparr>malloc_ok = \<lambda>n. True, freed_bytes = \<lambda>n. ''#''\<rparr>
          (ht_init \<lparr>entries = replicate TABLE_SIZE (Some (Entry ''?'' ''?'' None))\<rparr>)
          [(''aZ'', Held ''1''), (''b5'', Held ''2''), (''aZ'', ValueOf ''aZ'')]
     = Inr ([Some (Entry ''aZ'' ''1'' None), Some (Entry ''b5'' ''2'' None),
             Some (Entry ''aZ'' ''#'' (Some (Entry ''b5'' ''2'' None)))],
            \<lparr>entries = (replicate TABLE_SIZE None)[3679 := Some (Entry ''aZ'' ''#'' (Some (Entry ''b5'' ''2'' None)))]\<rparr>,
            m')" ..
  have keys: "first_occurrences (map fst (succeeded
          [(''aZ'', Held ''1''), (''b5'', Held ''2''), (''aZ'', ValueOf ''aZ'')]
          [Some (Entry ''aZ'' ''1'' None), Some (Entry ''b5'' ''2'' None),
             Some (Entry ''aZ'' ''#'' (Some (Entry ''b5'' ''2'' None)))]))
        = [''aZ'', ''b5'']"
    by (simp add: first_occurrences_def)
  have one: "concat (map (\<lambda>i. map (\<lambda>k. (i, k, fst (ht_get True ?T k)))
                      (filter (\<lambda>k. hash True k = i) [''aZ'', ''b5'']))
            [0..<TABLE_SIZE])
        = map (\<lambda>k. (3679, k, fst (ht_get True ?T k))) [''aZ'', ''b5'']"
    by (rule grouped_one_slot_keys) (auto simp: hash_samples TABLE_SIZE_def)
  have vals: "fst (ht_get True ?T ''aZ'') = Some ''#''" "fst (ht_get True ?T ''b5'') = Some ''2''"
    by (simp_all add: ht_get_eq hash_samples TABLE_SIZE_def)
  have enum: "enumerate_table ?T = [(3679, ''aZ'', ''#''), (3679, ''b5'', ''2'')]"
    by (subst enumerate_one_slot) (simp_all add: TABLE_SIZE_def)
  from enumeration_order [OF sample_length(1) run, unfolded keys one] enum show ?thesis
    by (simp only: vals list.map simp_thms)
qed

text \<open>
  Claim C7. After any sequence of \<^verbatim>\<open>ht_set\<close> calls on an initialised table, \<^verbatim>\<open>ht_get\<close> returns
  \<^verbatim>\<open>NULL\<close> for every key that no successful call stored; on the table as \<^verbatim>\<open>ht_init\<close> leaves
  it, it returns \<^verbatim>\<open>NULL\<close> for every key.
\<close>

theorem absent_key_not_found:
  assumes "length (entries h0) = TABLE_SIZE"
    and "ht_sets sg m (ht_init h0) kvs = Inr (rs, h, m')"
    and "k \<notin> fst ` set (succeeded kvs rs)"
  shows "fst (ht_get sg h k) = None \<and> fst (ht_get sg (ht_init h0) k) = None"
proof -
  have "set (map fst (stored kvs rs)) = set (map fst (succeeded kvs rs))"
    by (simp only: stored_keys)
  then have "k \<notin> fst ` set (stored kvs rs)"
    using assms(3) by simp
  then have "map_of (rev (stored kvs rs)) k = None"
    by (simp add: map_of_eq_None_iff)
  then show ?thesis
    using ht_get_from_init [OF assms(1,2), of k] ht_get_init [OF assms(1)] by simp
qed

theorem absent_key_not_found_witness:
  "fst (ht_get True
     \<lparr>entries = (replicate TABLE_SIZE None)[3679 := Some (Entry ''aZ'' ''3'' (Some (Entry ''b5'' ''2'' None)))]\<rparr> ''nowhere'')
   = None
   \<and> fst (ht_get True
       (ht_init \<lparr>entries = replicate TABLE_SIZE (Some (Entry ''?'' ''?'' None))\<rparr>) ''nowhere'')
     = None"
proof -
  from sample_run obtain m' where run: "ht_sets True \<lparr>malloc_ok = \<lambda>n. n \<noteq> 7, freed_bytes = \<lambda>n. ''#''\<rparr>
          (ht_init \<lparr>entries = replicate TABLE_SIZE (Some (Entry ''?'' ''?'' None))\<rparr>)
          [(''aZ'', Held ''1''), (''b5'', Held ''2''), (''aZ'', Held ''3''), (''aZ'', Held ''4'')]
     = Inr ([Some (Entry ''aZ'' ''1'' None), Some (Entry ''b5'' ''2'' None),
             Some (Entry ''aZ'' ''3'' (Some (Entry ''b5'' ''2'' None))), None],
            \<lparr>entries = (replicate TABLE_SIZE None)[3679 := Some (Entry ''aZ'' ''3'' (Some (Entry ''b5'' ''2'' None)))]\<rparr>,
            m')" ..
  show ?thesis
    by (rule absent_key_not_found [OF sample_length(1) run]) simp
qed

text \<open>
  Claim C8. \<^verbatim>\<open>ht_get\<close> and \<^verbatim>\<open>print_hashtable\<close> leave the table as it was. Any sequence of
  such calls ends with the table it started with, and every call in it returns what the
  same call returns on that table.
\<close>

theorem reads_do_not_mutate:
  "snd (ht_get sg h key) = h \<and> snd (print_hashtable h) = h
   \<and> reads sg h cs = (map (\<lambda>c. fst (read sg h c)) cs, h)"
  by (simp add: reads_eq ht_get_eq print_hashtable_def print_slots_eq)

text \<open>
  Claim C9 does not hold of the code. When the allocation of the node fails,
  \<^verbatim>\<open>ht_create_entry\<close> stores through the null pointer before it tests it, and so does
  \<^verbatim>\<open>ht_set\<close> on an empty slot.
\<close>

theorem ht_create_entry_null_store:
  "ht_create_entry \<lparr>malloc_ok = \<lambda>n. n \<noteq> 0, freed_bytes = \<lambda>n. ''#''\<rparr> ''madrid'' ''madrid''
     = Inl NullDereference
   \<and> ht_set True \<lparr>malloc_ok = \<lambda>n. n \<noteq> 0, freed_bytes = \<lambda>n. ''#''\<rparr>
       \<lparr>entries = replicate TABLE_SIZE None\<rparr> ''madrid'' (Held ''madrid'')
       = Inl NullDereference"
  by (simp add: ht_create_entry_def malloc_def ht_set_def hash_less)

text \<open>
  Claim C10. A call of \<^verbatim>\<open>ht_set\<close> with key \<open>k\<close> that returns keeps the number of slots and
  every slot other than \<open>hash k\<close>; in the chain of slot \<open>hash k\<close> the pairs with another key
  are the same, in the same order.
\<close>

theorem set_frame:
  assumes "length (entries h) = TABLE_SIZE"
    and "ht_set sg m h k v = Inr (r, h', m')"
  shows "length (entries h') = length (entries h)
         \<and> (\<forall>i. i \<noteq> hash sg k \<longrightarrow> entries h' ! i = entries h ! i)
         \<and> filter (\<lambda>(k', v'). k' \<noteq> k) (print_chain (entries h' ! hash sg k))
             = filter (\<lambda>(k', v'). k' \<noteq> k) (print_chain (entries h ! hash sg k))"
proof -
  note tab = ht_set_table [OF assms]
  have "filter (\<lambda>(k', v'). k' \<noteq> k) (print_chain (entries h' ! hash sg k))
             = filter (\<lambda>(k', v'). k' \<noteq> k) (print_chain (entries h ! hash sg k))"
  proof (cases r)
    case None
    then show ?thesis using tab(2) by simp
  next
    case (Some er)
    then show ?thesis
      using tab(4) by (simp add: filter_update [where P = "\<lambda>k'. k' \<noteq> k"])
  qed
  then show ?thesis
    using tab(1,3) assms(1) by simp
qed

theorem set_frame_witness:
  "length (entries \<lparr>entries = (replicate TABLE_SIZE None)[3679 := Some (Entry ''b5'' ''2'' (Some (Entry ''aZ'' ''1'' None)))]\<rparr>)
     = length (entries \<lparr>entries = (replicate TABLE_SIZE None)[3679 := Some (Entry ''b5'' ''2'' None)]\<rparr>)
   \<and> entries \<lparr>entries = (replicate TABLE_SIZE None)[3679 := Some (Entry ''b5'' ''2'' (Some (Entry ''aZ'' ''1'' None)))]\<rparr> ! 97
       = entries \<lparr>entries = (replicate TABLE_SIZE None)[3679 := Some (Entry ''b5'' ''2'' None)]\<rparr> ! 97
   \<and> filter (\<lambda>(k', v'). k' \<noteq> ''aZ'')
        (print_chain (entries \<lparr>entries = (replicate TABLE_SIZE None)[3679 := Some (Entry ''b5'' ''2'' (Some (Entry ''aZ'' ''1'' None)))]\<rparr> ! 3679))
     = filter (\<lambda>(k', v'). k' \<noteq> ''aZ'')
        (print_chain (entries \<lparr>entries = (replicate TABLE_SIZE None)[3679 := Some (Entry ''b5'' ''2'' None)]\<rparr> ! 3679))"
proof -
  have len: "length (entries \<lparr>entries = (replicate TABLE_SIZE None)[3679 := Some (Entry ''b5'' ''2'' None)]\<rparr>) = TABLE_SIZE"
    by simp
  have "(97 :: nat) \<noteq> hash True ''aZ''"
    by (simp add: hash_samples)
  with set_frame [OF len sample_sets(2)] show ?thesis
    by (simp only: hash_samples) blast
qed

end
